theory Spec2Isabelle
  imports Main
begin

section \<open>internal/markdown: the parsed tree and the requests\<close>

text \<open>
  \<open>Parse\<close> hands the markdown text to the goldmark parser and walks the tree that comes
  back. The parser is a library outside the repository, so the embedding starts at the
  tree. A node is its kind (the Go type the \<open>switch\<close> of \<open>walk\<close> dispatches on, with the
  fields \<open>walk\<close> reads) and its children in order. A \<open>Text\<close> node carries the bytes of its
  segment (\<open>node.Segment.Value(w.source)\<close>) and its two line-break flags; an \<open>AutoLink\<close>
  carries the bytes of \<open>node.URL(w.source)\<close>; a code block carries the bytes of each of its
  lines. Kinds that no \<open>case\<close> of the \<open>switch\<close> names (the table nodes of goldmark's table
  extension, and anything else) reach the final \<open>return ast.WalkContinue\<close>.

  Go strings and \<open>bytes.Buffer\<close> are byte sequences; \<open>string\<close> is a list of 8-bit
  characters, so \<open>length\<close> is \<open>len\<close> and \<open>buf.Len()\<close>.
\<close>

datatype kind =
    Document
  | Heading int
  | Paragraph
  | List bool
  | ListItem
  | TextBlock
  | Text string bool bool
  | String string
  | Emphasis int
  | Strikethrough
  | Link string
  | AutoLink string
  | CodeSpan
  | FencedCodeBlock "string list"
  | CodeBlock "string list"
  | ThematicBreak
  | Blockquote
  | HTMLBlock
  | RawHTML
  | Image
  | Table
  | TableRow
  | TableCell
  | Other

datatype node = Node kind "node list"

text \<open>
  A \<open>docs.Request\<close> as the \<open>add...\<close> functions build it: which of the three request fields is
  set, the range, and the one style field that is filled in.
\<close>

datatype TextStyle =
    Bold
  | Italic
  | StrikethroughStyle
  | WeightedFontFamily string
  | LinkUrl string

datatype Request =
    UpdateParagraphStyle int int string
  | UpdateTextStyle int int TextStyle
  | CreateParagraphBullets int int string

fun StartIndex :: "Request \<Rightarrow> int" where
  "StartIndex (UpdateParagraphStyle s e n) = s"
| "StartIndex (UpdateTextStyle s e t) = s"
| "StartIndex (CreateParagraphBullets s e p) = s"

fun EndIndex :: "Request \<Rightarrow> int" where
  "EndIndex (UpdateParagraphStyle s e n) = e"
| "EndIndex (UpdateTextStyle s e t) = e"
| "EndIndex (CreateParagraphBullets s e p) = e"

record Result =
  PlainText :: string
  Requests :: "Request list"

text \<open>
  The walker. The field \<open>source\<close> is only read through segments, whose bytes the nodes
  already carry, so it is left out.
\<close>

record walker =
  baseIndex :: int
  buf :: string
  requests :: "Request list"
  paragraphStart :: int
  inList :: bool
  listOrdered :: bool

datatype WalkStatus = WalkStop | WalkSkipChildren | WalkContinue

subsection \<open>The index\<close>

text \<open>
  Indices are \<open>int64\<close>. They are modelled as integers, and the one addition of the
  package wraps as Go's does.
\<close>

definition int64 :: "int \<Rightarrow> int" where
  "int64 x = (x + 2 ^ 63) mod 2 ^ 64 - 2 ^ 63"

definition newline :: string where
  "newline = [CHR 0x0A]"

definition WriteString :: "string \<Rightarrow> walker \<Rightarrow> walker" where
  "WriteString s w = w\<lparr>buf := buf w @ s\<rparr>"

definition currentIndex :: "walker \<Rightarrow> int" where
  "currentIndex w = int64 (baseIndex w + int (length (buf w)))"

subsection \<open>The requests\<close>

definition namedStyle :: "int \<Rightarrow> string" where
  "namedStyle level =
     (if level = 1 then ''HEADING_1''
      else if level = 2 then ''HEADING_2''
      else if level = 3 then ''HEADING_3''
      else if level = 4 then ''HEADING_4''
      else if level = 5 then ''HEADING_5''
      else if level = 6 then ''HEADING_6''
      else ''HEADING_1'')"

definition addHeadingStyle :: "int \<Rightarrow> int \<Rightarrow> int \<Rightarrow> walker \<Rightarrow> walker" where
  "addHeadingStyle start stop level w =
     (if start \<ge> stop then w
      else w\<lparr>requests := requests w @ [UpdateParagraphStyle start stop (namedStyle level)]\<rparr>)"

definition addBoldStyle :: "int \<Rightarrow> int \<Rightarrow> walker \<Rightarrow> walker" where
  "addBoldStyle start stop w =
     (if start \<ge> stop then w
      else w\<lparr>requests := requests w @ [UpdateTextStyle start stop Bold]\<rparr>)"

definition addItalicStyle :: "int \<Rightarrow> int \<Rightarrow> walker \<Rightarrow> walker" where
  "addItalicStyle start stop w =
     (if start \<ge> stop then w
      else w\<lparr>requests := requests w @ [UpdateTextStyle start stop Italic]\<rparr>)"

definition addStrikethroughStyle :: "int \<Rightarrow> int \<Rightarrow> walker \<Rightarrow> walker" where
  "addStrikethroughStyle start stop w =
     (if start \<ge> stop then w
      else w\<lparr>requests := requests w @ [UpdateTextStyle start stop StrikethroughStyle]\<rparr>)"

definition addCodeStyle :: "int \<Rightarrow> int \<Rightarrow> walker \<Rightarrow> walker" where
  "addCodeStyle start stop w =
     (if start \<ge> stop then w
      else w\<lparr>requests := requests w @
             [UpdateTextStyle start stop (WeightedFontFamily ''Courier New'')]\<rparr>)"

definition addLinkStyle :: "int \<Rightarrow> int \<Rightarrow> string \<Rightarrow> walker \<Rightarrow> walker" where
  "addLinkStyle start stop url w =
     (if start \<ge> stop \<or> url = [] then w
      else w\<lparr>requests := requests w @ [UpdateTextStyle start stop (LinkUrl url)]\<rparr>)"

definition addBulletRequest :: "int \<Rightarrow> int \<Rightarrow> bool \<Rightarrow> walker \<Rightarrow> walker" where
  "addBulletRequest start stop ordered w =
     (if start \<ge> stop then w
      else w\<lparr>requests := requests w @
             [CreateParagraphBullets start stop
                (if ordered then ''NUMBERED_DECIMAL_ALPHA_ROMAN''
                 else ''BULLET_DISC_CIRCLE_SQUARE'')]\<rparr>)"

subsection \<open>Inline formatting from the ancestors\<close>

text \<open>
  \<open>applyInlineFormatting\<close> follows \<open>Parent()\<close> from the text node to the root. The chain
  is passed down by the traversal as the list of the ancestors' kinds, the parent first.
  \<open>formatParents\<close> is the \<open>for parent != nil\<close> loop, with the local \<open>linkURL\<close> as an
  accumulator.
\<close>

fun formatParents :: "kind list \<Rightarrow> int \<Rightarrow> int \<Rightarrow> string \<Rightarrow> walker \<Rightarrow> string \<times> walker" where
  "formatParents [] start stop linkURL w = (linkURL, w)"
| "formatParents (Emphasis level # ps) start stop linkURL w =
     formatParents ps start stop linkURL
       (if level = 1 then addItalicStyle start stop w
        else if level \<ge> 2 then addBoldStyle start stop w
        else w)"
| "formatParents (Strikethrough # ps) start stop linkURL w =
     formatParents ps start stop linkURL (addStrikethroughStyle start stop w)"
| "formatParents (Link destination # ps) start stop linkURL w =
     formatParents ps start stop destination w"
| "formatParents (p # ps) start stop linkURL w =
     formatParents ps start stop linkURL w"

definition applyInlineFormatting :: "kind list \<Rightarrow> int \<Rightarrow> int \<Rightarrow> walker \<Rightarrow> walker" where
  "applyInlineFormatting parents start stop w =
     (if start \<ge> stop then w
      else (case formatParents parents start stop [] w of
              (linkURL, w1) \<Rightarrow>
                if linkURL \<noteq> [] then addLinkStyle start stop linkURL w1 else w1))"

subsection \<open>The walk\<close>

text \<open>The bytes of the \<open>Text\<close> children of a node, in order (code spans and images).\<close>

fun textChildren :: "node list \<Rightarrow> string" where
  "textChildren [] = []"
| "textChildren (Node (Text v sb hb) cs # ns) = v @ textChildren ns"
| "textChildren (n # ns) = textChildren ns"

text \<open>The rule of a thematic break: 39 times U+2500 (three bytes each) and a newline.\<close>

definition thematicBreakLine :: string where
  "thematicBreakLine = concat (replicate 39 [CHR 0xE2, CHR 0x94, CHR 0x80]) @ newline"

fun walk :: "kind list \<Rightarrow> node \<Rightarrow> bool \<Rightarrow> walker \<Rightarrow> WalkStatus \<times> walker" where
  "walk parents (Node k cs) entering w =
     (case k of
        Document \<Rightarrow> (WalkContinue, w)
      | Heading level \<Rightarrow>
          if entering then (WalkContinue, w\<lparr>paragraphStart := currentIndex w\<rparr>)
          else (let w1 = WriteString newline w
                in (WalkContinue, addHeadingStyle (paragraphStart w1) (currentIndex w1) level w1))
      | Paragraph \<Rightarrow>
          if entering then (WalkContinue, w\<lparr>paragraphStart := currentIndex w\<rparr>)
          else (let w1 = WriteString newline w
                in (WalkContinue,
                    if inList w1
                    then addBulletRequest (paragraphStart w1) (currentIndex w1) (listOrdered w1) w1
                    else w1))
      | List ordered \<Rightarrow>
          if entering then (WalkContinue, w\<lparr>inList := True, listOrdered := ordered\<rparr>)
          else (WalkContinue, w\<lparr>inList := False\<rparr>)
      | ListItem \<Rightarrow> (WalkContinue, w)
      | TextBlock \<Rightarrow>
          if \<not> entering then (WalkContinue, WriteString newline w) else (WalkContinue, w)
      | Text v softLineBreak hardLineBreak \<Rightarrow>
          if entering then
            (let start = currentIndex w;
                 w1 = WriteString v w;
                 stop = currentIndex w1;
                 w2 = applyInlineFormatting parents start stop w1;
                 w3 = (if softLineBreak then WriteString '' '' w2 else w2);
                 w4 = (if hardLineBreak then WriteString newline w3 else w3)
             in (WalkContinue, w4))
          else (WalkContinue, w)
      | String v \<Rightarrow>
          if entering then (WalkContinue, WriteString v w) else (WalkContinue, w)
      | Emphasis level \<Rightarrow> (WalkContinue, w)
      | Strikethrough \<Rightarrow> (WalkContinue, w)
      | Link destination \<Rightarrow> (WalkContinue, w)
      | AutoLink url \<Rightarrow>
          if entering then
            (let start = currentIndex w;
                 w1 = WriteString url w;
                 stop = currentIndex w1
             in (WalkContinue, addLinkStyle start stop url w1))
          else (WalkContinue, w)
      | CodeSpan \<Rightarrow>
          if entering then
            (let start = currentIndex w;
                 w1 = WriteString (textChildren cs) w;
                 stop = currentIndex w1
             in (WalkSkipChildren, addCodeStyle start stop w1))
          else (WalkSkipChildren, w)
      | FencedCodeBlock lines \<Rightarrow>
          if entering then
            (let start = currentIndex w;
                 w1 = WriteString (concat lines) w;
                 stop = currentIndex w1;
                 w2 = WriteString newline w1
             in (WalkContinue, addCodeStyle start stop w2))
          else (WalkContinue, w)
      | CodeBlock lines \<Rightarrow>
          if entering then
            (let start = currentIndex w;
                 w1 = WriteString (concat lines) w;
                 stop = currentIndex w1;
                 w2 = WriteString newline w1
             in (WalkContinue, addCodeStyle start stop w2))
          else (WalkContinue, w)
      | ThematicBreak \<Rightarrow>
          if entering then (WalkContinue, WriteString thematicBreakLine w)
          else (WalkContinue, w)
      | Blockquote \<Rightarrow> (WalkContinue, w)
      | HTMLBlock \<Rightarrow> (WalkContinue, w)
      | RawHTML \<Rightarrow> (WalkContinue, w)
      | Image \<Rightarrow>
          if entering then
            (WalkSkipChildren,
             WriteString '']'' (WriteString (textChildren cs) (WriteString ''['' w)))
          else (WalkSkipChildren, w)
      | _ \<Rightarrow> (WalkContinue, w))"

text \<open>
  \<open>ast.Walk\<close> of goldmark: the callback on entering, the children in order unless the
  callback answered \<open>WalkSkipChildren\<close>, the callback on leaving. \<open>walk\<close> never answers
  \<open>WalkStop\<close> and never returns an error, so the traversal always runs to the end.
\<close>

fun walkHelper :: "kind list \<Rightarrow> node \<Rightarrow> walker \<Rightarrow> walker"
  and walkChildren :: "kind list \<Rightarrow> node list \<Rightarrow> walker \<Rightarrow> walker" where
  "walkHelper parents (Node k cs) w =
     (let r = walk parents (Node k cs) True w;
          w2 = (if fst r \<noteq> WalkSkipChildren then walkChildren (k # parents) cs (snd r)
                else snd r)
      in snd (walk parents (Node k cs) False w2))"
| "walkChildren parents [] w = w"
| "walkChildren parents (c # cs) w = walkChildren parents cs (walkHelper parents c w)"

definition HasSuffix :: "string \<Rightarrow> string \<Rightarrow> bool" where
  "HasSuffix s suffix =
     (length s \<ge> length suffix \<and> drop (length s - length suffix) s = suffix)"

definition newWalker :: "int \<Rightarrow> walker" where
  "newWalker base =
     \<lparr>baseIndex = base, buf = [], requests = [], paragraphStart = 0,
      inList = False, listOrdered = False\<rparr>"

definition Parse :: "node \<Rightarrow> int \<Rightarrow> Result" where
  "Parse doc base =
     (let w = walkHelper [] doc (newWalker base);
          plainText = buf w;
          plainText1 = (if \<not> HasSuffix plainText newline \<and> plainText \<noteq> []
                        then plainText @ newline else plainText)
      in \<lparr>PlainText = plainText1, Requests = requests w\<rparr>)"

section \<open>docs: the plain text of a Google document\<close>

text \<open>
  \<open>docsPlainText\<close> reads a \<open>docs.Document\<close> of the Google Docs API. Of a
  \<open>StructuralElement\<close> the code reads three pointer fields, in this order: \<open>Paragraph\<close>
  (its \<open>Elements\<close>, each with a \<open>TextRun\<close> that may be nil, here the run's \<open>Content\<close> or
  \<open>None\<close>), \<open>Table\<close> (rows of cells, a cell being a list of structural elements) and
  \<open>TableOfContents\<close> (a list of structural elements). Elements of a content list are
  pointers and may be nil.
\<close>

datatype StructuralElement = StructuralElement
  (elParagraph: "string option list option")
  (elTable: "StructuralElement option list list list option")
  (elTableOfContents: "StructuralElement option list option")

record docsDocument =
  Body :: "StructuralElement option list option"

text \<open>
  The buffer is passed in and returned with the result. \<open>s[:remaining]\<close> is a slice of
  bytes.
\<close>

definition appendLimited :: "int \<Rightarrow> string \<Rightarrow> string \<Rightarrow> bool \<times> string" where
  "appendLimited maxBytes s b =
     (if maxBytes \<le> 0 then (True, b @ s)
      else (let remaining = maxBytes - int (length b)
            in if remaining \<le> 0 then (False, b)
               else if int (length s) > remaining then (False, b @ take (nat remaining) s)
               else (True, b @ s)))"

text \<open>The loop over \<open>el.Paragraph.Elements\<close>.\<close>

fun appendTextRuns :: "int \<Rightarrow> string option list \<Rightarrow> string \<Rightarrow> bool \<times> string" where
  "appendTextRuns maxBytes [] b = (True, b)"
| "appendTextRuns maxBytes (None # ps) b = appendTextRuns maxBytes ps b"
| "appendTextRuns maxBytes (Some content # ps) b =
     (case appendLimited maxBytes content b of
        (False, b1) \<Rightarrow> (False, b1)
      | (True, b1) \<Rightarrow> appendTextRuns maxBytes ps b1)"

text \<open>
  \<open>appendContent\<close> is the loop over a list of structural elements that stops at the first
  \<open>false\<close> (over \<open>cell.Content\<close>, over \<open>el.TableOfContents.Content\<close> and, in
  \<open>docsPlainText\<close>, over \<open>doc.Body.Content\<close>); \<open>appendCells\<close> and \<open>appendRows\<close> iterate
  over the cells of a row and the rows of a table, with the loop index.
\<close>

fun appendDocsElementText :: "int \<Rightarrow> StructuralElement option \<Rightarrow> string \<Rightarrow> bool \<times> string"
  and appendContent :: "int \<Rightarrow> StructuralElement option list \<Rightarrow> string \<Rightarrow> bool \<times> string"
  and appendCells ::
    "int \<Rightarrow> nat \<Rightarrow> StructuralElement option list list \<Rightarrow> string \<Rightarrow> bool \<times> string"
  and appendRows ::
    "int \<Rightarrow> nat \<Rightarrow> StructuralElement option list list list \<Rightarrow> string \<Rightarrow> bool \<times> string"
where
  "appendDocsElementText maxBytes None b = (True, b)"
| "appendDocsElementText maxBytes (Some (StructuralElement (Some elements) t c)) b =
     appendTextRuns maxBytes elements b"
| "appendDocsElementText maxBytes (Some (StructuralElement None (Some rows) c)) b =
     appendRows maxBytes 0 rows b"
| "appendDocsElementText maxBytes (Some (StructuralElement None None (Some content))) b =
     appendContent maxBytes content b"
| "appendDocsElementText maxBytes (Some (StructuralElement None None None)) b = (True, b)"
| "appendContent maxBytes [] b = (True, b)"
| "appendContent maxBytes (el # els) b =
     (case appendDocsElementText maxBytes el b of
        (False, b1) \<Rightarrow> (False, b1)
      | (True, b1) \<Rightarrow> appendContent maxBytes els b1)"
| "appendCells maxBytes cellIdx [] b = (True, b)"
| "appendCells maxBytes cellIdx (cell # cells) b =
     (case (if cellIdx > 0 then appendLimited maxBytes [CHR 0x09] b else (True, b)) of
        (False, b1) \<Rightarrow> (False, b1)
      | (True, b1) \<Rightarrow>
          (case appendContent maxBytes cell b1 of
             (False, b2) \<Rightarrow> (False, b2)
           | (True, b2) \<Rightarrow> appendCells maxBytes (cellIdx + 1) cells b2))"
| "appendRows maxBytes rowIdx [] b = (True, b)"
| "appendRows maxBytes rowIdx (row # rows) b =
     (case (if rowIdx > 0 then appendLimited maxBytes newline b else (True, b)) of
        (False, b1) \<Rightarrow> (False, b1)
      | (True, b1) \<Rightarrow>
          (case appendCells maxBytes 0 row b1 of
             (False, b2) \<Rightarrow> (False, b2)
           | (True, b2) \<Rightarrow> appendRows maxBytes (rowIdx + 1) rows b2))"

definition docsPlainText :: "docsDocument option \<Rightarrow> int \<Rightarrow> string" where
  "docsPlainText doc maxBytes =
     (case doc of
        None \<Rightarrow> []
      | Some d \<Rightarrow>
          (case Body d of
             None \<Rightarrow> []
           | Some content \<Rightarrow> snd (appendContent maxBytes content [])))"

section \<open>Notions of the specification\<close>



definition byteIn :: "nat \<Rightarrow> nat \<Rightarrow> char \<Rightarrow> bool" where
  "byteIn lo hi c = (lo \<le> (of_char c :: nat) \<and> (of_char c :: nat) \<le> hi)"

fun validUTF8 :: "string \<Rightarrow> bool" where
  "validUTF8 [] = True"
| "validUTF8 (c # cs) =
     (if byteIn 0x00 0x7F c then validUTF8 cs
      else if byteIn 0xC2 0xDF c then
        (case cs of
           c1 # r \<Rightarrow> byteIn 0x80 0xBF c1 \<and> validUTF8 r
         | _ \<Rightarrow> False)
      else if byteIn 0xE0 0xEF c then
        (case cs of
           c1 # c2 # r \<Rightarrow>
             byteIn (if c = CHR 0xE0 then 0xA0 else 0x80)
                    (if c = CHR 0xED then 0x9F else 0xBF) c1
             \<and> byteIn 0x80 0xBF c2 \<and> validUTF8 r
         | _ \<Rightarrow> False)
      else if byteIn 0xF0 0xF4 c then
        (case cs of
           c1 # c2 # c3 # r \<Rightarrow>
             byteIn (if c = CHR 0xF0 then 0x90 else 0x80)
                    (if c = CHR 0xF4 then 0x8F else 0xBF) c1
             \<and> byteIn 0x80 0xBF c2 \<and> byteIn 0x80 0xBF c3 \<and> validUTF8 r
         | _ \<Rightarrow> False)
      else False)"

text \<open>Predicates on requests and kinds, for stating the properties.\<close>

fun isParagraphStyle :: "Request \<Rightarrow> bool" where
  "isParagraphStyle (UpdateParagraphStyle s e n) = True"
| "isParagraphStyle r = False"

fun isBold :: "Request \<Rightarrow> bool" where
  "isBold (UpdateTextStyle s e Bold) = True"
| "isBold r = False"

fun isLinkRequest :: "Request \<Rightarrow> bool" where
  "isLinkRequest (UpdateTextStyle s e (LinkUrl url)) = True"
| "isLinkRequest r = False"


fun isLink :: "kind \<Rightarrow> bool" where
  "isLink (Link destination) = True"
| "isLink k = False"

text \<open>
  The kinds for which \<open>walk\<close> writes to the buffer, on entering or on leaving, and the
  trees that hold a node of such a kind.
\<close>

fun writesText :: "kind \<Rightarrow> bool" where
  "writesText (Heading level) = True"
| "writesText Paragraph = True"
| "writesText TextBlock = True"
| "writesText (Text v sb hb) = True"
| "writesText (String v) = True"
| "writesText (AutoLink url) = True"
| "writesText CodeSpan = True"
| "writesText (FencedCodeBlock lines) = True"
| "writesText (CodeBlock lines) = True"
| "writesText ThematicBreak = True"
| "writesText Image = True"
| "writesText k = False"

fun hasWritingNode :: "node \<Rightarrow> bool" where
  "hasWritingNode (Node k cs) = (writesText k \<or> (\<exists>c \<in> set cs. hasWritingNode c))"

text \<open>
  For the proofs: the requests over one range; a request whose range lies within the text
  written so far; the invariant of the walk, which speaks only of walkers whose index has
  not left \<open>int64\<close> (\<open>q\<close> says that \<open>paragraphStart\<close> has been set by a block that is open);
  and what it means for a bounded run of \<open>appendLimited\<close> to be the cut of the text \<open>t\<close>
  appended to \<open>b\<close>.
\<close>

definition spanned :: "int \<Rightarrow> int \<Rightarrow> Request set" where
  "spanned s e = {r. StartIndex r = s \<and> EndIndex r = e \<and> s < e}"

definition rangeOK :: "walker \<Rightarrow> Request \<Rightarrow> bool" where
  "rangeOK w r =
     (baseIndex w \<le> StartIndex r \<and> StartIndex r < EndIndex r
      \<and> EndIndex r \<le> baseIndex w + int (length (buf w)))"

definition rangesOK :: "bool \<Rightarrow> walker \<Rightarrow> bool" where
  "rangesOK q w =
     (baseIndex w + int (length (buf w)) < 2 ^ 63 \<longrightarrow>
        (\<forall>r \<in> set (requests w). rangeOK w r)
        \<and> paragraphStart w \<le> baseIndex w + int (length (buf w))
        \<and> (q \<longrightarrow> baseIndex w \<le> paragraphStart w))"

definition truncated :: "int \<Rightarrow> string \<Rightarrow> bool \<times> string \<Rightarrow> string \<Rightarrow> bool" where
  "truncated m b r t =
     (snd r = take (nat m) (b @ t)
      \<and> (fst r \<longrightarrow> length (b @ t) \<le> nat m)
      \<and> (\<not> fst r \<longrightarrow> nat m \<le> length (b @ t)))"

section \<open>Documents used below\<close>

abbreviation textLeaf :: "string \<Rightarrow> node" where
  "textLeaf s \<equiv> Node (Text s False False) []"

text \<open>The tree of \<^verbatim>\<open># Title\<close>, blank line, \<^verbatim>\<open>Body\<close>.\<close>

definition titleBodyDoc :: node where
  "titleBodyDoc =
     Node Document
       [Node (Heading 1) [textLeaf ''Title''],
        Node Paragraph [textLeaf ''Body'']]"

text \<open>The tree of \<^verbatim>\<open>**a *b* c**\<close>: strong emphasis around \<open>a\<close>, an emphasised \<open>b\<close> and \<open>c\<close>.\<close>

definition emphasisDoc :: node where
  "emphasisDoc =
     Node Document
       [Node Paragraph
          [Node (Emphasis 2)
             [textLeaf ''a '', Node (Emphasis 1) [textLeaf ''b''], textLeaf '' c'']]]"

text \<open>
  A table of two rows of two cells. In \<open>tableDoc\<close> the cells hold their text directly,
  as goldmark's table extension builds them; in \<open>tableBlocksDoc\<close> every cell holds a
  paragraph, as the specification describes a cell.
\<close>

definition tableDoc :: node where
  "tableDoc =
     Node Document
       [Node Table
          [Node TableRow [Node TableCell [textLeaf ''a''], Node TableCell [textLeaf ''b'']],
           Node TableRow [Node TableCell [textLeaf ''c''], Node TableCell [textLeaf ''d'']]]]"

definition tableBlocksDoc :: node where
  "tableBlocksDoc =
     Node Document
       [Node Table
          [Node TableRow
             [Node TableCell [Node Paragraph [textLeaf ''a'']],
              Node TableCell [Node Paragraph [textLeaf ''b'']]],
           Node TableRow
             [Node TableCell [Node Paragraph [textLeaf ''c'']],
              Node TableCell [Node Paragraph [textLeaf ''d'']]]]]"

text \<open>
  The list of \<open>TestParseMixedNestedLists\<close> with a blank line between the items, so that
  the items hold paragraphs: an unordered list whose first item has an ordered sublist
  of two items, and a second item after it.
\<close>

definition mixedListDoc :: node where
  "mixedListDoc =
     Node Document
       [Node (List False)
          [Node ListItem
             [Node Paragraph [textLeaf ''Unordered top''],
              Node (List True)
                [Node ListItem [Node Paragraph [textLeaf ''Ordered nested'']],
                 Node ListItem [Node Paragraph [textLeaf ''Another ordered'']]]],
           Node ListItem [Node Paragraph [textLeaf ''Back to unordered'']]]]"

text \<open>A text under two links.\<close>

definition nestedLinkDoc :: node where
  "nestedLinkDoc =
     Node Document
       [Node Paragraph [Node (Link ''outer'') [Node (Link ''inner'') [textLeaf ''x'']]]]"

text \<open>A fenced code block of one line, \<open>x\<close> with its line end.\<close>

definition fencedDoc :: node where
  "fencedDoc = Node Document [Node (FencedCodeBlock [''x'' @ newline]) []]"

text \<open>An emphasised U+00E9 (two bytes in UTF-8).\<close>

definition eAcute :: string where
  "eAcute = [CHR 0xC3, CHR 0xA9]"


text \<open>The tree of \<^verbatim>\<open>*a* *b*\<close>, to be compiled at the largest \<open>int64\<close>.\<close>

definition twoEmphasesDoc :: node where
  "twoEmphasesDoc =
     Node Document
       [Node Paragraph
          [Node (Emphasis 1) [textLeaf ''a''], textLeaf '' '',
           Node (Emphasis 1) [textLeaf ''b'']]]"


text \<open>A Google document of one paragraph with one text run, U+00E9.\<close>

definition accentDocsDocument :: "docsDocument option" where
  "accentDocsDocument =
     Some \<lparr>Body = Some [Some (StructuralElement (Some [Some eAcute]) None None)]\<rparr>"

section \<open>The fields the requests leave alone\<close>

lemma int64_id: "- (2 ^ 63) \<le> x \<Longrightarrow> x < 2 ^ 63 \<Longrightarrow> int64 x = x"
  by (simp add: int64_def)

lemmas add_defs = addHeadingStyle_def addBoldStyle_def addItalicStyle_def
  addStrikethroughStyle_def addCodeStyle_def addLinkStyle_def addBulletRequest_def

lemma add_buf [simp]:
  "buf (addHeadingStyle s e l w) = buf w"
  "buf (addBoldStyle s e w) = buf w"
  "buf (addItalicStyle s e w) = buf w"
  "buf (addStrikethroughStyle s e w) = buf w"
  "buf (addCodeStyle s e w) = buf w"
  "buf (addLinkStyle s e u w) = buf w"
  "buf (addBulletRequest s e b w) = buf w"
  by (simp_all add: add_defs)

lemma add_baseIndex [simp]:
  "baseIndex (addHeadingStyle s e l w) = baseIndex w"
  "baseIndex (addBoldStyle s e w) = baseIndex w"
  "baseIndex (addItalicStyle s e w) = baseIndex w"
  "baseIndex (addStrikethroughStyle s e w) = baseIndex w"
  "baseIndex (addCodeStyle s e w) = baseIndex w"
  "baseIndex (addLinkStyle s e u w) = baseIndex w"
  "baseIndex (addBulletRequest s e b w) = baseIndex w"
  by (simp_all add: add_defs)

lemma add_paragraphStart [simp]:
  "paragraphStart (addHeadingStyle s e l w) = paragraphStart w"
  "paragraphStart (addBoldStyle s e w) = paragraphStart w"
  "paragraphStart (addItalicStyle s e w) = paragraphStart w"
  "paragraphStart (addStrikethroughStyle s e w) = paragraphStart w"
  "paragraphStart (addCodeStyle s e w) = paragraphStart w"
  "paragraphStart (addLinkStyle s e u w) = paragraphStart w"
  "paragraphStart (addBulletRequest s e b w) = paragraphStart w"
  by (simp_all add: add_defs)

lemma formatParents_fields [simp]:
  "buf (snd (formatParents ps s e u w)) = buf w"
  "baseIndex (snd (formatParents ps s e u w)) = baseIndex w"
  "paragraphStart (snd (formatParents ps s e u w)) = paragraphStart w"
  by (induction ps s e u w rule: formatParents.induct) simp_all

lemma applyInlineFormatting_fields [simp]:
  "buf (applyInlineFormatting ps s e w) = buf w"
  "baseIndex (applyInlineFormatting ps s e w) = baseIndex w"
  "paragraphStart (applyInlineFormatting ps s e w) = paragraphStart w"
proof -
  obtain u w1 where f: "formatParents ps s e [] w = (u, w1)"
    by (cases "formatParents ps s e [] w")
  have "buf w1 = buf w" "baseIndex w1 = baseIndex w" "paragraphStart w1 = paragraphStart w"
    using formatParents_fields [of ps s e "[]" w] f by simp_all
  then show "buf (applyInlineFormatting ps s e w) = buf w"
    and "baseIndex (applyInlineFormatting ps s e w) = baseIndex w"
    and "paragraphStart (applyInlineFormatting ps s e w) = paragraphStart w"
    by (simp_all add: applyInlineFormatting_def f)
qed

lemma walk_baseIndex [simp]: "baseIndex (snd (walk ps n entering w)) = baseIndex w"
  by (cases n; cases "case n of Node k cs \<Rightarrow> k") (simp_all add: Let_def WriteString_def)

lemma walk_buf: "\<exists>t. buf (snd (walk ps n entering w)) = buf w @ t"
  by (cases n; cases "case n of Node k cs \<Rightarrow> k") (simp_all add: Let_def WriteString_def)

section \<open>Invariants of the traversal\<close>

text \<open>
  A property of the walker that every call of \<open>walk\<close> keeps is kept by the traversal.
\<close>

lemma walkHelper_invariant:
  assumes step: "\<And>ps n entering w. I w \<Longrightarrow> I (snd (walk ps n entering w))"
  shows "I w \<Longrightarrow> I (walkHelper ps n w)" and "I w \<Longrightarrow> I (walkChildren ps ns w)"
proof (induction ps n w and ps ns w rule: walkHelper_walkChildren.induct)
  case (1 parents k cs w)
  then show ?case by (simp add: Let_def step del: walk.simps)
next
  case (2 parents w)
  then show ?case by simp
next
  case (3 parents c cs w)
  then show ?case by simp
qed

lemma walkHelper_baseIndex [simp]:
  "baseIndex (walkHelper ps n w) = baseIndex w"
  "baseIndex (walkChildren ps ns w) = baseIndex w"
  using walkHelper_invariant [of "\<lambda>x. baseIndex x = baseIndex w" w] by simp_all

lemma walkHelper_buf_mono:
  "length (buf w) \<le> length (buf (walkHelper ps n w))"
proof -
  have "\<And>ps n entering (w' :: walker). length (buf w) \<le> length (buf w')
      \<Longrightarrow> length (buf w) \<le> length (buf (snd (walk ps n entering w')))"
  proof -
    fix ps n entering and w' :: walker
    assume a: "length (buf w) \<le> length (buf w')"
    obtain t where "buf (snd (walk ps n entering w')) = buf w' @ t"
      using walk_buf by blast
    then show "length (buf w) \<le> length (buf (snd (walk ps n entering w')))"
      using a by simp
  qed
  from walkHelper_invariant(1) [of "\<lambda>x. length (buf w) \<le> length (buf x)", OF this]
  show ?thesis by simp
qed

lemma Parse_fields:
  "Requests (Parse doc base) = requests (walkHelper [] doc (newWalker base))"
  "length (buf (walkHelper [] doc (newWalker base))) \<le> length (PlainText (Parse doc base))"
  by (simp_all add: Parse_def Let_def)

subsection \<open>What a request function adds\<close>

lemma add_requests:
  "set (requests (addHeadingStyle s e l w)) \<subseteq> set (requests w) \<union> spanned s e"
  "set (requests (addBoldStyle s e w)) \<subseteq> set (requests w) \<union> spanned s e"
  "set (requests (addItalicStyle s e w)) \<subseteq> set (requests w) \<union> spanned s e"
  "set (requests (addStrikethroughStyle s e w)) \<subseteq> set (requests w) \<union> spanned s e"
  "set (requests (addCodeStyle s e w)) \<subseteq> set (requests w) \<union> spanned s e"
  "set (requests (addLinkStyle s e u w)) \<subseteq> set (requests w) \<union> spanned s e"
  "set (requests (addBulletRequest s e b w)) \<subseteq> set (requests w) \<union> spanned s e"
  by (auto simp: add_defs spanned_def)


lemma formatParents_requests:
  "set (requests (snd (formatParents ps s e u w))) \<subseteq> set (requests w) \<union> spanned s e"
proof (induction ps s e u w rule: formatParents.induct)
  case (2 level ps start stop linkURL w)
  then show ?case
    using add_requests(2,3) [of start stop w] by (simp split: if_splits) blast+
next
  case (3 ps start stop linkURL w)
  then show ?case
    using add_requests(4) [of start stop w] by simp blast
qed simp_all

lemma applyInlineFormatting_requests:
  "set (requests (applyInlineFormatting ps s e w)) \<subseteq> set (requests w) \<union> spanned s e"
proof -
  obtain u w1 where f: "formatParents ps s e [] w = (u, w1)"
    by (cases "formatParents ps s e [] w")
  have 1: "set (requests w1) \<subseteq> set (requests w) \<union> spanned s e"
    using formatParents_requests [of ps s e "[]" w] f by simp
  have 2: "set (requests (addLinkStyle s e u w1)) \<subseteq> set (requests w1) \<union> spanned s e"
    by (rule add_requests)
  show ?thesis
    using 1 2 by (auto simp: applyInlineFormatting_def f)
qed







subsection \<open>The link of a text\<close>

lemma formatParents_links:
  "filter isLinkRequest (requests (snd (formatParents ps s e u w)))
     = filter isLinkRequest (requests w)"
  by (induction ps s e u w rule: formatParents.induct) (simp_all add: add_defs)

lemma applyInlineFormatting_links:
  "filter isLinkRequest (requests (applyInlineFormatting ps s e w))
     = filter isLinkRequest (requests w)
       @ (if s < e \<and> fst (formatParents ps s e [] w) \<noteq> []
          then [UpdateTextStyle s e (LinkUrl (fst (formatParents ps s e [] w)))] else [])"
proof -
  obtain u w1 where f: "formatParents ps s e [] w = (u, w1)"
    by (cases "formatParents ps s e [] w")
  have "filter isLinkRequest (requests w1) = filter isLinkRequest (requests w)"
    using formatParents_links [of ps s e "[]" w] f by simp
  then show ?thesis
    by (simp add: applyInlineFormatting_def f addLinkStyle_def)
qed

lemma formatParents_append:
  "formatParents (xs @ ys) s e u w
     = formatParents ys s e (fst (formatParents xs s e u w)) (snd (formatParents xs s e u w))"
  by (induction xs s e u w rule: formatParents.induct) simp_all

lemma formatParents_no_link:
  "\<forall>p \<in> set ps. \<not> isLink p \<Longrightarrow> fst (formatParents ps s e u w) = u"
  by (induction ps s e u w rule: formatParents.induct) simp_all




subsection \<open>The requests of a text node\<close>






subsection \<open>Ranges stay within the text\<close>

lemma rangesOK_weaken: "rangesOK True w \<Longrightarrow> rangesOK q w"
  by (simp add: rangesOK_def)

lemma rangesOK_extend:
  assumes "rangesOK q w"
    and "baseIndex w' = baseIndex w" and "buf w' = buf w @ t"
    and "paragraphStart w' = paragraphStart w"
    and "\<And>r. baseIndex w + int (length (buf w @ t)) < 2 ^ 63 \<Longrightarrow> r \<in> set (requests w')
           \<Longrightarrow> r \<in> set (requests w) \<or> rangeOK w' r"
  shows "rangesOK q w'"
  unfolding rangesOK_def
proof (intro impI conjI ballI)
  assume b: "baseIndex w' + int (length (buf w')) < 2 ^ 63"
  then have b0: "baseIndex w + int (length (buf w)) < 2 ^ 63"
    using assms(2,3) by simp
  note i = assms(1) [unfolded rangesOK_def, rule_format, OF b0]
  show "paragraphStart w' \<le> baseIndex w' + int (length (buf w'))"
    using i assms(2,3,4) by simp
  { assume q then show "baseIndex w' \<le> paragraphStart w'" using i assms(2,4) by simp }
  fix r assume r: "r \<in> set (requests w')"
  have "r \<in> set (requests w) \<or> rangeOK w' r"
    using assms(5) [OF _ r] b assms(2,3) by simp
  moreover have "rangeOK w r \<Longrightarrow> rangeOK w' r"
    using assms(2,3) by (simp add: rangeOK_def)
  ultimately show "rangeOK w' r" using i by blast
qed

lemma rangesOK_emit:
  assumes "rangesOK q w"
    and "baseIndex w' = baseIndex w" and "buf w' = buf w @ t"
    and "paragraphStart w' = paragraphStart w"
    and "set (requests w') \<subseteq> set (requests w) \<union> spanned s e"
    and "baseIndex w + int (length (buf w @ t)) < 2 ^ 63
           \<Longrightarrow> baseIndex w \<le> s \<and> e \<le> baseIndex w + int (length (buf w @ t))"
  shows "rangesOK q w'"
proof (rule rangesOK_extend [OF assms(1-4)])
  fix r
  assume b: "baseIndex w + int (length (buf w @ t)) < 2 ^ 63" and r: "r \<in> set (requests w')"
  from r assms(5) have "r \<in> set (requests w) \<or> r \<in> spanned s e" by auto
  then show "r \<in> set (requests w) \<or> rangeOK w' r"
    using assms(6) [OF b] assms(2,3) by (auto simp: rangeOK_def spanned_def)
qed

lemma walk_rangesOK_text:
  assumes "1 \<le> baseIndex w" "rangesOK q w"
  shows "rangesOK q (snd (walk ps (Node (Text v sb hb) cs) True w))"
proof -
  let ?s = "currentIndex w"
  let ?w1 = "WriteString v w"
  let ?e = "currentIndex ?w1"
  let ?w2 = "applyInlineFormatting ps ?s ?e ?w1"
  let ?t = "v @ (if sb then '' '' else []) @ (if hb then newline else [])"
  let ?w' = "snd (walk ps (Node (Text v sb hb) cs) True w)"
  have "set (requests ?w2) \<subseteq> set (requests w) \<union> spanned ?s ?e"
    using applyInlineFormatting_requests [of ps ?s ?e ?w1] by (simp add: WriteString_def)
  moreover have "requests ?w' = requests ?w2"
    by (simp add: Let_def WriteString_def)
  ultimately have sub: "set (requests ?w') \<subseteq> set (requests w) \<union> spanned ?s ?e"
    by simp
  have bf: "buf ?w' = buf w @ ?t"
    by (simp add: Let_def WriteString_def)
  show ?thesis
  proof (rule rangesOK_emit [OF assms(2) _ bf _ sub])
    show "baseIndex ?w' = baseIndex w" by (simp add: Let_def WriteString_def)
    show "paragraphStart ?w' = paragraphStart w" by (simp add: Let_def WriteString_def)
    assume b: "baseIndex w + int (length (buf w @ ?t)) < 2 ^ 63"
    have "?s = baseIndex w + int (length (buf w))"
      using b assms(1) by (simp add: currentIndex_def int64_id)
    moreover have "?e = baseIndex w + int (length (buf w)) + int (length v)"
      using b assms(1) by (simp add: currentIndex_def int64_id WriteString_def)
    ultimately show "baseIndex w \<le> ?s \<and> ?e \<le> baseIndex w + int (length (buf w @ ?t))"
      by simp
  qed
qed

lemma walk_rangesOK_enter:
  assumes "1 \<le> baseIndex w" "rangesOK q w"
  shows "rangesOK q (snd (walk ps (Node k cs) True w))"
proof (cases k)
  case (Text v sb hb)
  then show ?thesis using walk_rangesOK_text [OF assms] by simp
qed (use assms in \<open>auto simp: rangesOK_def rangeOK_def Let_def WriteString_def currentIndex_def
       int64_id add_defs\<close>)

lemma walk_rangesOK_enter_block:
  assumes "1 \<le> baseIndex w" "rangesOK q w" "k = Paragraph \<or> k = Heading level"
  shows "rangesOK True (snd (walk ps (Node k cs) True w))"
  using assms by (auto simp: rangesOK_def rangeOK_def currentIndex_def int64_id)

lemma walk_rangesOK_exit_block:
  assumes "1 \<le> baseIndex w" "rangesOK True w" "k = Paragraph \<or> k = Heading level"
  shows "rangesOK True (snd (walk ps (Node k cs) False w))"
proof -
  let ?w1 = "WriteString newline w"
  let ?s = "paragraphStart w"
  let ?e = "currentIndex ?w1"
  let ?w' = "snd (walk ps (Node k cs) False w)"
  have sub: "set (requests ?w') \<subseteq> set (requests w) \<union> spanned ?s ?e"
    using assms(3) add_requests(1) [of ?s ?e level ?w1]
      add_requests(7) [of ?s ?e "listOrdered w" ?w1]
    by (auto simp: Let_def WriteString_def split: if_splits)
  show ?thesis
  proof (rule rangesOK_emit [OF assms(2) _ _ _ sub])
    show "baseIndex ?w' = baseIndex w" using assms(3) by (auto simp: Let_def WriteString_def)
    show "buf ?w' = buf w @ newline" using assms(3) by (auto simp: Let_def WriteString_def)
    show "paragraphStart ?w' = paragraphStart w"
      using assms(3) by (auto simp: Let_def WriteString_def)
    assume b: "baseIndex w + int (length (buf w @ newline)) < 2 ^ 63"
    then have "baseIndex w + int (length (buf w)) < 2 ^ 63" by simp
    then have "baseIndex w \<le> ?s" using assms(2) by (simp add: rangesOK_def)
    moreover have "?e = baseIndex w + int (length (buf w @ newline))"
      using b assms(1) by (simp add: currentIndex_def int64_id WriteString_def)
    ultimately show "baseIndex w \<le> ?s \<and> ?e \<le> baseIndex w + int (length (buf w @ newline))"
      by simp
  qed
qed

lemma walk_rangesOK_exit_other:
  assumes "1 \<le> baseIndex w" "rangesOK q w" "k \<noteq> Paragraph" "\<forall>level. k \<noteq> Heading level"
  shows "rangesOK q (snd (walk ps (Node k cs) False w))"
  using assms
  by (cases k) (auto simp: rangesOK_def rangeOK_def Let_def WriteString_def)

lemma walkHelper_rangesOK:
  "1 \<le> baseIndex w \<Longrightarrow> rangesOK q w \<Longrightarrow> rangesOK q (walkHelper ps n w)"
  "1 \<le> baseIndex w \<Longrightarrow> rangesOK q w \<Longrightarrow> rangesOK q (walkChildren ps ns w)"
proof (induction ps n w and ps ns w arbitrary: q and q rule: walkHelper_walkChildren.induct)
  case (1 parents k cs w)
  let ?r = "walk parents (Node k cs) True w"
  let ?w2 = "if fst ?r \<noteq> WalkSkipChildren then walkChildren (k # parents) cs (snd ?r)
             else snd ?r"
  have eq: "walkHelper parents (Node k cs) w = snd (walk parents (Node k cs) False ?w2)"
    by (simp add: Let_def del: walk.simps)
  have b1: "1 \<le> baseIndex (snd ?r)" using "1.prems"(1) by (simp del: walk.simps)
  have b2: "1 \<le> baseIndex ?w2" using b1 by (simp del: walk.simps)
  show ?case
  proof (cases "k = Paragraph \<or> (\<exists>level. k = Heading level)")
    case True
    then obtain level where k: "k = Paragraph \<or> k = Heading level" by blast
    have "rangesOK True (snd ?r)"
      by (rule walk_rangesOK_enter_block [OF "1.prems" k])
    then have "rangesOK True ?w2"
      using "1.IH" [OF refl _ b1, of True] by (simp del: walk.simps)
    then have "rangesOK True (snd (walk parents (Node k cs) False ?w2))"
      by (rule walk_rangesOK_exit_block [OF b2 _ k])
    then show ?thesis unfolding eq by (rule rangesOK_weaken)
  next
    case False
    have "rangesOK q (snd ?r)"
      by (rule walk_rangesOK_enter [OF "1.prems"])
    then have "rangesOK q ?w2"
      using "1.IH" [OF refl _ b1, of q] by (simp del: walk.simps)
    then have "rangesOK q (snd (walk parents (Node k cs) False ?w2))"
      using False by (intro walk_rangesOK_exit_other [OF b2]) auto
    then show ?thesis unfolding eq .
  qed
next
  case (2 parents w)
  then show ?case by simp
next
  case (3 parents c cs w)
  then show ?case by simp
qed

lemma walk_strict:
  assumes "\<forall>r \<in> set (requests w). StartIndex r < EndIndex r"
  shows "\<forall>r \<in> set (requests (snd (walk ps n entering w))). StartIndex r < EndIndex r"
proof (cases n)
  case (Node k cs)
  show ?thesis
  proof (cases k)
    case (Text v sb hb)
    let ?s = "currentIndex w"
    let ?w1 = "WriteString v w"
    let ?e = "currentIndex ?w1"
    have "set (requests (applyInlineFormatting ps ?s ?e ?w1))
        \<subseteq> set (requests w) \<union> spanned ?s ?e"
      using applyInlineFormatting_requests [of ps ?s ?e ?w1] by (simp add: WriteString_def)
    then show ?thesis
      using assms Node Text by (auto simp: Let_def WriteString_def spanned_def)
  qed (use assms Node in \<open>auto simp: Let_def WriteString_def add_defs\<close>)
qed

lemma Parse_strict:
  "r \<in> set (Requests (Parse doc base)) \<Longrightarrow> StartIndex r < EndIndex r"
  using walkHelper_invariant(1)
    [of "\<lambda>w. \<forall>r \<in> set (requests w). StartIndex r < EndIndex r" "newWalker base" "[]" doc,
     OF walk_strict]
  by (simp add: Parse_fields(1)) (simp add: newWalker_def)

lemma Parse_within:
  assumes "1 \<le> base"
    and "base + int (length (PlainText (Parse doc base))) < 2 ^ 63"
    and "r \<in> set (Requests (Parse doc base))"
  shows "base \<le> StartIndex r
    \<and> EndIndex r \<le> base + int (length (PlainText (Parse doc base)))"
proof -
  let ?w = "walkHelper [] doc (newWalker base)"
  have i0: "rangesOK False (newWalker base)"
    using assms(1) by (simp add: rangesOK_def newWalker_def)
  have b0: "1 \<le> baseIndex (newWalker base)" using assms(1) by (simp add: newWalker_def)
  have i: "rangesOK False ?w" by (rule walkHelper_rangesOK(1) [OF b0 i0])
  have bw: "baseIndex ?w = base" by (simp add: newWalker_def)
  have le: "length (buf ?w) \<le> length (PlainText (Parse doc base))" by (rule Parse_fields)
  then have "baseIndex ?w + int (length (buf ?w)) < 2 ^ 63"
    using assms(2) bw by simp
  then have "rangeOK ?w r"
    using i assms(3) by (simp add: rangesOK_def Parse_fields(1))
  then show ?thesis
    using le bw by (simp add: rangeOK_def)
qed

subsection \<open>Trees that write nothing\<close>

lemma walk_silent:
  "\<not> writesText k \<Longrightarrow> buf (snd (walk ps (Node k cs) entering w)) = buf w"
  by (cases k) simp_all

lemma walkHelper_silent:
  "\<not> hasWritingNode n \<Longrightarrow> buf (walkHelper ps n w) = buf w"
  "\<forall>c \<in> set ns. \<not> hasWritingNode c \<Longrightarrow> buf (walkChildren ps ns w) = buf w"
proof (induction ps n w and ps ns w rule: walkHelper_walkChildren.induct)
  case (1 parents k cs w)
  let ?r = "walk parents (Node k cs) True w"
  have k: "\<not> writesText k" and cs: "\<forall>c \<in> set cs. \<not> hasWritingNode c"
    using "1.prems" by auto
  have a: "buf (snd ?r) = buf w" by (rule walk_silent [OF k])
  have b: "buf (if fst ?r \<noteq> WalkSkipChildren then walkChildren (k # parents) cs (snd ?r)
                else snd ?r) = buf w"
    using "1.IH" [OF refl _ cs] a by (simp del: walk.simps)
  show ?case
    using walk_silent [OF k] b by (simp add: Let_def del: walk.simps)
next
  case (2 parents w)
  then show ?case by simp
next
  case (3 parents c cs w)
  then show ?case by simp
qed

lemma HasSuffix_newline: "HasSuffix (s @ newline) newline"
  by (simp add: HasSuffix_def newline_def)

subsection \<open>Bytes and code points\<close>



section \<open>The plain text of a document, bounded and unbounded\<close>

text \<open>
  With \<open>maxBytes \<le> 0\<close> every function appends its text and answers \<open>true\<close>. With
  \<open>maxBytes > 0\<close> the run is the cut, at \<open>maxBytes\<close> bytes, of what the unbounded run
  appends.
\<close>

lemma appendLimited_unlimited: "maxBytes \<le> 0 \<Longrightarrow> appendLimited maxBytes s b = (True, b @ s)"
  by (simp add: appendLimited_def)

lemma appendTextRuns_unlimited:
  "maxBytes \<le> 0 \<longrightarrow> (\<exists>t. \<forall>b'. appendTextRuns maxBytes ps b' = (True, b' @ t))"
proof (induction maxBytes ps "b :: string" rule: appendTextRuns.induct)
  case (1 maxBytes b)
  then show ?case by simp
next
  case (2 maxBytes ps b)
  then show ?case by simp
next
  case (3 maxBytes content ps b)
  show ?case
  proof
    assume m: "maxBytes \<le> 0"
    have s: "\<And>x. appendLimited maxBytes content x = (True, x @ content)"
      using m by (simp add: appendLimited_unlimited)
    obtain t where r: "\<And>x. appendTextRuns maxBytes ps x = (True, x @ t)"
      using "3.IH" [OF s [of b, symmetric] refl] m by blast
    have "\<forall>b'. appendTextRuns maxBytes (Some content # ps) b' = (True, b' @ content @ t)"
      by (simp add: s r)
    then show "\<exists>t. \<forall>b'. appendTextRuns maxBytes (Some content # ps) b' = (True, b' @ t)" ..
  qed
qed

lemma unlimited:
  "maxBytes \<le> 0 \<longrightarrow> (\<exists>t. \<forall>b'. appendDocsElementText maxBytes el b' = (True, b' @ t))"
  "maxBytes \<le> 0 \<longrightarrow> (\<exists>t. \<forall>b'. appendContent maxBytes els b' = (True, b' @ t))"
  "maxBytes \<le> 0 \<longrightarrow> (\<exists>t. \<forall>b'. appendCells maxBytes cellIdx cells b' = (True, b' @ t))"
  "maxBytes \<le> 0 \<longrightarrow> (\<exists>t. \<forall>b'. appendRows maxBytes rowIdx rows b' = (True, b' @ t))"
proof (induction maxBytes el "b :: string" and maxBytes els "b :: string"
    and maxBytes cellIdx cells "b :: string" and maxBytes rowIdx rows "b :: string"
    rule: appendDocsElementText_appendContent_appendCells_appendRows.induct)
  case (1 maxBytes b)
  then show ?case by simp
next
  case (2 maxBytes elements t c b)
  then show ?case using appendTextRuns_unlimited by simp
next
  case (3 maxBytes rows c b)
  then show ?case by simp
next
  case (4 maxBytes content b)
  then show ?case by simp
next
  case (5 maxBytes b)
  then show ?case by simp
next
  case (6 maxBytes b)
  then show ?case by simp
next
  case (7 maxBytes el els b)
  show ?case
  proof
    assume m: "maxBytes \<le> 0"
    obtain t1 where e: "\<And>x. appendDocsElementText maxBytes el x = (True, x @ t1)"
      using "7.IH"(1) m by blast
    obtain t2 where r: "\<And>x. appendContent maxBytes els x = (True, x @ t2)"
      using "7.IH"(2) [OF e [of b, symmetric] refl] m by blast
    have "\<forall>b'. appendContent maxBytes (el # els) b' = (True, b' @ t1 @ t2)"
      by (simp add: e r)
    then show "\<exists>t. \<forall>b'. appendContent maxBytes (el # els) b' = (True, b' @ t)" ..
  qed
next
  case (8 maxBytes cellIdx b)
  then show ?case by simp
next
  case (9 maxBytes cellIdx cell cells b)
  show ?case
  proof
    assume m: "maxBytes \<le> 0"
    let ?sep = "if cellIdx > 0 then [CHR 0x09] else []"
    have s: "\<And>x. (if cellIdx > 0 then appendLimited maxBytes [CHR 0x09] x else (True, x))
        = (True, x @ ?sep)"
      using m by (simp add: appendLimited_unlimited)
    obtain t1 where c: "\<And>x. appendContent maxBytes cell x = (True, x @ t1)"
      using "9.IH"(1) [OF s [of b, symmetric] refl] m by blast
    obtain t2 where r: "\<And>x. appendCells maxBytes (cellIdx + 1) cells x = (True, x @ t2)"
      using "9.IH"(2) [OF s [of b, symmetric] refl c [of "b @ ?sep", symmetric] refl] m by blast
    have "\<forall>b'. appendCells maxBytes cellIdx (cell # cells) b' = (True, b' @ ?sep @ t1 @ t2)"
      using m r by (auto simp: appendLimited_unlimited c)
    then show "\<exists>t. \<forall>b'. appendCells maxBytes cellIdx (cell # cells) b' = (True, b' @ t)" ..
  qed
next
  case (10 maxBytes rowIdx b)
  then show ?case by simp
next
  case (11 maxBytes rowIdx row rows b)
  show ?case
  proof
    assume m: "maxBytes \<le> 0"
    let ?sep = "if rowIdx > 0 then newline else []"
    have s: "\<And>x. (if rowIdx > 0 then appendLimited maxBytes newline x else (True, x))
        = (True, x @ ?sep)"
      using m by (simp add: appendLimited_unlimited)
    obtain t1 where c: "\<And>x. appendCells maxBytes 0 row x = (True, x @ t1)"
      using "11.IH"(1) [OF s [of b, symmetric] refl] m by blast
    obtain t2 where r: "\<And>x. appendRows maxBytes (rowIdx + 1) rows x = (True, x @ t2)"
      using "11.IH"(2) [OF s [of b, symmetric] refl c [of "b @ ?sep", symmetric] refl] m by blast
    have "\<forall>b'. appendRows maxBytes rowIdx (row # rows) b' = (True, b' @ ?sep @ t1 @ t2)"
      using m r by (auto simp: appendLimited_unlimited c)
    then show "\<exists>t. \<forall>b'. appendRows maxBytes rowIdx (row # rows) b' = (True, b' @ t)" ..
  qed
qed


lemma truncated_nil: "length b \<le> nat m \<Longrightarrow> truncated m b (True, b) []"
  by (simp add: truncated_def)

lemma truncated_appendLimited:
  "0 < m \<Longrightarrow> length b \<le> nat m \<Longrightarrow> truncated m b (appendLimited m s b) s"
  by (auto simp: truncated_def appendLimited_def Let_def nat_diff_distrib')

lemma truncated_seq:
  assumes "truncated m b r1 t1"
    and "fst r1 \<Longrightarrow> length (snd r1) \<le> nat m \<Longrightarrow> truncated m (snd r1) r2 t2"
  shows "truncated m b (if fst r1 then r2 else r1) (t1 @ t2)"
proof (cases "fst r1")
  case True
  then have 1: "snd r1 = b @ t1" and 2: "length (b @ t1) \<le> nat m"
    using assms(1) by (auto simp: truncated_def)
  then have "truncated m (b @ t1) r2 t2" using assms(2) True by simp
  then show ?thesis using True by (simp add: truncated_def)
next
  case False
  then show ?thesis using assms(1) by (auto simp: truncated_def)
qed

lemma case_bool_pair:
  "(case r of (False, b1) \<Rightarrow> (False, b1) | (True, b1) \<Rightarrow> g b1) = (if fst r then g (snd r) else r)"
  by (cases r) (auto split: bool.splits)


lemma text_of_runs:
  "snd (appendTextRuns 0 (Some content # ps) []) = content @ snd (appendTextRuns 0 ps [])"
proof -
  obtain t where t: "\<And>x. appendTextRuns 0 ps x = (True, x @ t)"
    using appendTextRuns_unlimited [of 0 ps] by auto
  show ?thesis by (simp add: t appendLimited_def)
qed

lemma text_of_content:
  "snd (appendContent 0 (el # els) [])
     = snd (appendDocsElementText 0 el []) @ snd (appendContent 0 els [])"
proof -
  obtain t1 where t1: "\<And>x. appendDocsElementText 0 el x = (True, x @ t1)"
    using unlimited(1) [of 0 el] by auto
  obtain t2 where t2: "\<And>x. appendContent 0 els x = (True, x @ t2)"
    using unlimited(2) [of 0 els] by auto
  show ?thesis by (simp add: t1 t2)
qed

lemma text_of_cells:
  "snd (appendCells 0 i (cell # cells) [])
     = (if i > 0 then [CHR 0x09] else []) @ snd (appendContent 0 cell [])
       @ snd (appendCells 0 (Suc i) cells [])"
proof -
  obtain t1 where t1: "\<And>x. appendContent 0 cell x = (True, x @ t1)"
    using unlimited(2) [of 0 cell] by auto
  obtain t2 where t2: "\<And>x. appendCells 0 (Suc i) cells x = (True, x @ t2)"
    using unlimited(3) [of 0 "Suc i" cells] by auto
  show ?thesis using t2 by (auto simp: t1 appendLimited_def)
qed

lemma text_of_rows:
  "snd (appendRows 0 i (row # rows) [])
     = (if i > 0 then newline else []) @ snd (appendCells 0 0 row [])
       @ snd (appendRows 0 (Suc i) rows [])"
proof -
  obtain t1 where t1: "\<And>x. appendCells 0 0 row x = (True, x @ t1)"
    using unlimited(3) [of 0 0 row] by auto
  obtain t2 where t2: "\<And>x. appendRows 0 (Suc i) rows x = (True, x @ t2)"
    using unlimited(4) [of 0 "Suc i" rows] by auto
  show ?thesis using t2 by (auto simp: t1 appendLimited_def)
qed

lemma truncated_sep:
  "0 < m \<Longrightarrow> length b \<le> nat m \<Longrightarrow>
     truncated m b (if c then appendLimited m s b else (True, b)) (if c then s else [])"
  by (simp add: truncated_appendLimited truncated_nil)

lemma appendTextRuns_truncated:
  "0 < m \<longrightarrow> length b \<le> nat m \<longrightarrow>
     truncated m b (appendTextRuns m ps b) (snd (appendTextRuns 0 ps []))"
proof (induction m ps b rule: appendTextRuns.induct)
  case (1 maxBytes b)
  then show ?case by (simp add: truncated_nil)
next
  case (2 maxBytes ps b)
  then show ?case by simp
next
  case (3 maxBytes content ps b)
  show ?case
  proof (intro impI)
    assume m: "0 < maxBytes" and b: "length b \<le> nat maxBytes"
    let ?r1 = "appendLimited maxBytes content b"
    have 1: "truncated maxBytes b ?r1 content" by (rule truncated_appendLimited [OF m b])
    have 2: "truncated maxBytes (snd ?r1) (appendTextRuns maxBytes ps (snd ?r1))
        (snd (appendTextRuns 0 ps []))"
      if "fst ?r1" "length (snd ?r1) \<le> nat maxBytes"
      using "3.IH" [of True "snd ?r1"] that m by (cases ?r1) auto
    show "truncated maxBytes b (appendTextRuns maxBytes (Some content # ps) b)
        (snd (appendTextRuns 0 (Some content # ps) []))"
      using truncated_seq [OF 1 2]
      by (simp add: case_bool_pair text_of_runs del: appendTextRuns.simps(3))
        (simp add: case_bool_pair)
  qed
qed


lemma elements_truncated:
  "0 < m \<longrightarrow> length b \<le> nat m \<longrightarrow>
     truncated m b (appendDocsElementText m el b) (snd (appendDocsElementText 0 el []))"
  "0 < m \<longrightarrow> length b \<le> nat m \<longrightarrow>
     truncated m b (appendContent m els b) (snd (appendContent 0 els []))"
  "0 < m \<longrightarrow> length b \<le> nat m \<longrightarrow>
     truncated m b (appendCells m cellIdx cells b) (snd (appendCells 0 cellIdx cells []))"
  "0 < m \<longrightarrow> length b \<le> nat m \<longrightarrow>
     truncated m b (appendRows m rowIdx rows b) (snd (appendRows 0 rowIdx rows []))"
proof (induction m el b and m els b and m cellIdx cells b and m rowIdx rows b
    rule: appendDocsElementText_appendContent_appendCells_appendRows.induct)
  case (1 maxBytes b)
  then show ?case by (simp add: truncated_nil)
next
  case (2 maxBytes elements t c b)
  then show ?case using appendTextRuns_truncated by simp
next
  case (3 maxBytes rows c b)
  then show ?case by simp
next
  case (4 maxBytes content b)
  then show ?case by simp
next
  case (5 maxBytes b)
  then show ?case by (simp add: truncated_nil)
next
  case (6 maxBytes b)
  then show ?case by (simp add: truncated_nil)
next
  case (7 maxBytes el els b)
  show ?case
  proof (intro impI)
    assume m: "0 < maxBytes" and b: "length b \<le> nat maxBytes"
    let ?r1 = "appendDocsElementText maxBytes el b"
    have 1: "truncated maxBytes b ?r1 (snd (appendDocsElementText 0 el []))"
      using "7.IH"(1) m b by simp
    have 2: "truncated maxBytes (snd ?r1) (appendContent maxBytes els (snd ?r1))
        (snd (appendContent 0 els []))"
      if "fst ?r1" "length (snd ?r1) \<le> nat maxBytes"
      using "7.IH"(2) [of True "snd ?r1"] that m by (cases ?r1) auto
    have "appendContent maxBytes (el # els) b
        = (if fst ?r1 then appendContent maxBytes els (snd ?r1) else ?r1)"
      by (simp add: case_bool_pair)
    then show "truncated maxBytes b (appendContent maxBytes (el # els) b)
        (snd (appendContent 0 (el # els) []))"
      using truncated_seq [OF 1 2] by (simp only: text_of_content)
  qed
next
  case (8 maxBytes cellIdx b)
  then show ?case by (simp add: truncated_nil)
next
  case (9 maxBytes cellIdx cell cells b)
  show ?case
  proof (intro impI)
    assume m: "0 < maxBytes" and b: "length b \<le> nat maxBytes"
    let ?r0 = "if cellIdx > 0 then appendLimited maxBytes [CHR 0x09] b else (True, b)"
    let ?r1 = "appendContent maxBytes cell (snd ?r0)"
    let ?r2 = "appendCells maxBytes (cellIdx + 1) cells (snd ?r1)"
    have 0: "truncated maxBytes b ?r0 (if cellIdx > 0 then [CHR 0x09] else [])"
      by (rule truncated_sep [OF m b])
    have 1: "truncated maxBytes (snd ?r0) ?r1 (snd (appendContent 0 cell []))"
      if "fst ?r0" "length (snd ?r0) \<le> nat maxBytes"
      using "9.IH"(1) [of True "snd ?r0"] that m by (cases ?r0) auto
    have 2: "truncated maxBytes (snd ?r1) ?r2 (snd (appendCells 0 (Suc cellIdx) cells []))"
      if "fst ?r0" "fst ?r1" "length (snd ?r1) \<le> nat maxBytes"
      using "9.IH"(2) [of True "snd ?r0" True "snd ?r1"] that m
      by (cases ?r0; cases ?r1) auto
    have 12: "truncated maxBytes (snd ?r0) (if fst ?r1 then ?r2 else ?r1)
        (snd (appendContent 0 cell []) @ snd (appendCells 0 (Suc cellIdx) cells []))"
      if "fst ?r0" "length (snd ?r0) \<le> nat maxBytes"
      using truncated_seq [OF 1 2] that by blast
    have "appendCells maxBytes cellIdx (cell # cells) b
        = (if fst ?r0 then (if fst ?r1 then ?r2 else ?r1) else ?r0)"
      by (simp only: appendCells.simps case_bool_pair)
    then show "truncated maxBytes b (appendCells maxBytes cellIdx (cell # cells) b)
        (snd (appendCells 0 cellIdx (cell # cells) []))"
      using truncated_seq [OF 0 12] by (simp only: text_of_cells)
  qed
next
  case (10 maxBytes rowIdx b)
  then show ?case by (simp add: truncated_nil)
next
  case (11 maxBytes rowIdx row rows b)
  show ?case
  proof (intro impI)
    assume m: "0 < maxBytes" and b: "length b \<le> nat maxBytes"
    let ?r0 = "if rowIdx > 0 then appendLimited maxBytes newline b else (True, b)"
    let ?r1 = "appendCells maxBytes 0 row (snd ?r0)"
    let ?r2 = "appendRows maxBytes (rowIdx + 1) rows (snd ?r1)"
    have 0: "truncated maxBytes b ?r0 (if rowIdx > 0 then newline else [])"
      by (rule truncated_sep [OF m b])
    have 1: "truncated maxBytes (snd ?r0) ?r1 (snd (appendCells 0 0 row []))"
      if "fst ?r0" "length (snd ?r0) \<le> nat maxBytes"
      using "11.IH"(1) [of True "snd ?r0"] that m by (cases ?r0) auto
    have 2: "truncated maxBytes (snd ?r1) ?r2 (snd (appendRows 0 (Suc rowIdx) rows []))"
      if "fst ?r0" "fst ?r1" "length (snd ?r1) \<le> nat maxBytes"
      using "11.IH"(2) [of True "snd ?r0" True "snd ?r1"] that m
      by (cases ?r0; cases ?r1) auto
    have 12: "truncated maxBytes (snd ?r0) (if fst ?r1 then ?r2 else ?r1)
        (snd (appendCells 0 0 row []) @ snd (appendRows 0 (Suc rowIdx) rows []))"
      if "fst ?r0" "length (snd ?r0) \<le> nat maxBytes"
      using truncated_seq [OF 1 2] that by blast
    have "appendRows maxBytes rowIdx (row # rows) b
        = (if fst ?r0 then (if fst ?r1 then ?r2 else ?r1) else ?r0)"
      by (simp only: appendRows.simps case_bool_pair)
    then show "truncated maxBytes b (appendRows maxBytes rowIdx (row # rows) b)
        (snd (appendRows 0 rowIdx (row # rows) []))"
      using truncated_seq [OF 0 12] by (simp only: text_of_rows)
  qed
qed

section \<open>Ranges of the requests\<close>

text \<open>
  Claim C1, as stated: for every tree and every base index of at least 1, every request
  of \<open>Parse\<close> has \<open>0 < start \<le> end \<le> baseIndex + length plainText\<close>, and no request has
  \<open>start = end\<close>. It fails where the index leaves \<open>int64\<close>: compiling \<^verbatim>\<open>*a* *b*\<close> at the
  base index \<open>2^63 - 1\<close>, the range of \<open>a\<close> wraps to an end below its start and is dropped,
  and \<open>b\<close> gets the range \<open>[1 - 2^63, 2 - 2^63)\<close>, whose start is not positive.
\<close>

theorem range_overflow_counterexample:
  "(1 :: int) \<le> 2 ^ 63 - 1
   \<and> UpdateTextStyle (1 - 2 ^ 63) (2 - 2 ^ 63) Italic
        \<in> set (Requests (Parse twoEmphasesDoc (2 ^ 63 - 1)))
   \<and> \<not> 0 < StartIndex (UpdateTextStyle (1 - 2 ^ 63) (2 - 2 ^ 63) Italic)"
  by code_simp

text \<open>
  Claim C1, amended: every request of \<open>Parse\<close> has \<open>start < end\<close>, for every tree and every
  base index (each \<open>add...\<close> function drops a range with \<open>start \<ge> end\<close>); and when the base
  index is at least 1 and \<open>baseIndex + length plainText\<close> is below \<open>2^63\<close>, so that no index
  wraps, every request has \<open>0 < baseIndex \<le> start\<close> and \<open>end \<le> baseIndex + length plainText\<close>,
  the length counted in bytes.
\<close>

theorem ranges_within_text:
  "(r \<in> set (Requests (Parse doc base)) \<longrightarrow> StartIndex r < EndIndex r)
   \<and> (1 \<le> base \<and> base + int (length (PlainText (Parse doc base))) < 2 ^ 63
        \<and> r \<in> set (Requests (Parse doc base)) \<longrightarrow>
        0 < StartIndex r \<and> base \<le> StartIndex r
        \<and> EndIndex r \<le> base + int (length (PlainText (Parse doc base))))"
proof (intro conjI impI)
  assume "r \<in> set (Requests (Parse doc base))"
  then show "StartIndex r < EndIndex r" by (rule Parse_strict)
next
  assume a: "1 \<le> base \<and> base + int (length (PlainText (Parse doc base))) < 2 ^ 63
      \<and> r \<in> set (Requests (Parse doc base))"
  then have w: "base \<le> StartIndex r
      \<and> EndIndex r \<le> base + int (length (PlainText (Parse doc base)))"
    by (intro Parse_within) simp_all
  then show "0 < StartIndex r" using a by simp
  show "base \<le> StartIndex r" using w by simp
  show "EndIndex r \<le> base + int (length (PlainText (Parse doc base)))" using w by simp
qed

text \<open>
  Claim C1, the amended statement at a document: the italic request \<open>[3, 4)\<close> of the
  emphasis document compiled at base index 1, whose plain text has 6 bytes.
\<close>

theorem ranges_within_text_witness:
  "UpdateTextStyle 3 4 Italic \<in> set (Requests (Parse emphasisDoc 1))
   \<and> (1 :: int) \<le> 1
   \<and> 1 + int (length (PlainText (Parse emphasisDoc 1))) < 2 ^ 63
   \<and> StartIndex (UpdateTextStyle 3 4 Italic) < EndIndex (UpdateTextStyle 3 4 Italic)
   \<and> 0 < StartIndex (UpdateTextStyle 3 4 Italic)
   \<and> EndIndex (UpdateTextStyle 3 4 Italic)
        \<le> 1 + int (length (PlainText (Parse emphasisDoc 1)))"
proof -
  have h1: "UpdateTextStyle 3 4 Italic \<in> set (Requests (Parse emphasisDoc 1))"
    by code_simp
  have h2: "1 + int (length (PlainText (Parse emphasisDoc 1))) < 2 ^ 63"
    by code_simp
  show ?thesis
    using ranges_within_text [of "UpdateTextStyle 3 4 Italic" emphasisDoc 1] h1 h2 by simp
qed

section \<open>The heading of a two-block document\<close>

text \<open>
  Claim C2, as stated: compiling \<^verbatim>\<open># Title\<close>, blank line, \<^verbatim>\<open>Body\<close> at base index 1 gives
  the plain text \<open>Title\<close>, newline, \<open>Body\<close>, newline, and exactly one heading request,
  with range \<open>[1, 6)\<close> and level 1. It fails: the request's range is not \<open>[1, 6)\<close>.
\<close>

theorem heading_range_counterexample:
  "\<not> (PlainText (Parse titleBodyDoc 1) = ''Title'' @ newline @ ''Body'' @ newline
      \<and> filter isParagraphStyle (Requests (Parse titleBodyDoc 1))
          = [UpdateParagraphStyle 1 6 ''HEADING_1''])"
  by code_simp

text \<open>
  Claim C2, amended: the plain text is as stated and there is exactly one heading request,
  of level 1, but its range is \<open>[1, 7)\<close>: \<open>walk\<close> writes the newline that ends the
  heading before it reads the end index, so the range covers \<open>Title\<close> and its newline.
  It is the only request of the result.
\<close>

theorem heading_range_with_newline:
  "PlainText (Parse titleBodyDoc 1) = ''Title'' @ newline @ ''Body'' @ newline
   \<and> Requests (Parse titleBodyDoc 1) = [UpdateParagraphStyle 1 7 ''HEADING_1'']
   \<and> namedStyle 1 = ''HEADING_1''"
  by code_simp

section \<open>The unit of the index\<close>




section \<open>Bullets of nested lists\<close>

text \<open>
  Claim C4: a list pushes its context on entry and pops it on exit, so that the items of
  an outer list that follow a nested list still get bullets, with the outer list's
  ordered flag. The code keeps one flag instead of a stack: leaving any list sets
  \<open>inList\<close> to false, whatever list is still open. In the mixed list the paragraph
  \<open>Back to unordered\<close>, bytes \<open>[46, 64)\<close>, comes after the nested ordered list and gets
  no bullet: the requests are the three bullets of the paragraphs before it.
\<close>

theorem nested_list_drops_bullet:
  "PlainText (Parse mixedListDoc 1)
     = ''Unordered top'' @ newline @ ''Ordered nested'' @ newline
       @ ''Another ordered'' @ newline @ ''Back to unordered'' @ newline
   \<and> Requests (Parse mixedListDoc 1)
     = [CreateParagraphBullets 1 15 ''BULLET_DISC_CIRCLE_SQUARE'',
        CreateParagraphBullets 15 30 ''NUMBERED_DECIMAL_ALPHA_ROMAN'',
        CreateParagraphBullets 30 46 ''NUMBERED_DECIMAL_ALPHA_ROMAN'']
   \<and> inList (walkHelper parents (Node (List ordered) cs) w) = False"
proof -
  have "inList (walkHelper parents (Node (List ordered) cs) w) = False"
    by (simp add: Let_def)
  moreover have "PlainText (Parse mixedListDoc 1)
     = ''Unordered top'' @ newline @ ''Ordered nested'' @ newline
       @ ''Another ordered'' @ newline @ ''Back to unordered'' @ newline"
    by code_simp
  moreover have "Requests (Parse mixedListDoc 1)
     = [CreateParagraphBullets 1 15 ''BULLET_DISC_CIRCLE_SQUARE'',
        CreateParagraphBullets 15 30 ''NUMBERED_DECIMAL_ALPHA_ROMAN'',
        CreateParagraphBullets 30 46 ''NUMBERED_DECIMAL_ALPHA_ROMAN'']"
    by code_simp
  ultimately show ?thesis by simp
qed

section \<open>Emphasis\<close>

text \<open>
  Claim C5, as stated: emphasis of level 1 is italic, of level 2 or more bold, and
  compiling \<^verbatim>\<open>**a *b* c**\<close> gives a single bold request over the whole span. It fails:
  the bold requests of that document are not the one request \<open>[1, 6)\<close>.
\<close>

theorem single_bold_counterexample:
  "filter isBold (Requests (Parse emphasisDoc 1)) \<noteq> [UpdateTextStyle 1 6 Bold]"
  by code_simp

text \<open>
  Claim C5, amended: emphasis of level 1 is italic and of level 2 or more bold, for each
  text node on its own range. Compiling \<^verbatim>\<open>**a *b* c**\<close> at base index 1 gives one bold
  request for each of the three text nodes under the strong emphasis, over the adjacent
  ranges \<open>[1, 3)\<close>, \<open>[3, 4)\<close> and \<open>[4, 6)\<close>, which cover the span once, and the italic
  request \<open>[3, 4)\<close>; no bold range is requested twice.
\<close>

theorem emphasis_per_text_node:
  "(start < stop \<longrightarrow>
      requests (applyInlineFormatting [Emphasis level] start stop w)
        = requests w @ (if level = 1 then [UpdateTextStyle start stop Italic]
                        else if 2 \<le> level then [UpdateTextStyle start stop Bold] else []))
   \<and> PlainText (Parse emphasisDoc 1) = ''a b c'' @ newline
   \<and> Requests (Parse emphasisDoc 1)
        = [UpdateTextStyle 1 3 Bold, UpdateTextStyle 3 4 Italic,
           UpdateTextStyle 3 4 Bold, UpdateTextStyle 4 6 Bold]"
proof -
  have "PlainText (Parse emphasisDoc 1) = ''a b c'' @ newline"
    by code_simp
  moreover have "Requests (Parse emphasisDoc 1)
        = [UpdateTextStyle 1 3 Bold, UpdateTextStyle 3 4 Italic,
           UpdateTextStyle 3 4 Bold, UpdateTextStyle 4 6 Bold]"
    by code_simp
  ultimately show ?thesis
    by (simp add: applyInlineFormatting_def add_defs)
qed

text \<open>
  Claim C5, the amended statement at a range: an emphasis of level 3 over \<open>[1, 2)\<close> is
  bold.
\<close>

theorem emphasis_per_text_node_witness:
  "(1 :: int) < 2
   \<and> requests (applyInlineFormatting [Emphasis 3] 1 2 (newWalker 1))
        = [UpdateTextStyle 1 2 Bold]"
  using emphasis_per_text_node [of 1 2 3 "newWalker 1"]
  by (simp add: newWalker_def)

section \<open>Nested links\<close>

text \<open>
  Claim C6, as stated: under several links a text gets the destination of the closest
  one. It fails: for a text under the link \<open>inner\<close> inside the link \<open>outer\<close>, the link
  request does not carry \<open>inner\<close>.
\<close>

theorem closest_link_counterexample:
  "filter isLinkRequest (Requests (Parse nestedLinkDoc 1))
     \<noteq> [UpdateTextStyle 1 2 (LinkUrl ''inner'')]"
  by code_simp

text \<open>
  Claim C6, amended: under several links a non-empty text gets one link request, with
  the destination of the farthest link, the last one met on the way up (each link on the
  way overwrites \<open>linkURL\<close>), provided that destination is not empty. \<open>nearer\<close> are the
  ancestors below that link and \<open>farther\<close> those above it.
\<close>

theorem outermost_link_wins:
  assumes "start < stop" and "destination \<noteq> []" and "\<forall>p \<in> set farther. \<not> isLink p"
  shows "filter isLinkRequest
           (requests (applyInlineFormatting (nearer @ Link destination # farther) start stop w))
         = filter isLinkRequest (requests w)
           @ [UpdateTextStyle start stop (LinkUrl destination)]"
proof -
  have "fst (formatParents (nearer @ Link destination # farther) start stop [] w) = destination"
    using assms(3) by (simp add: formatParents_append formatParents_no_link)
  then show ?thesis
    using assms(1,2) by (simp add: applyInlineFormatting_links)
qed

text \<open>
  Claim C6, the amended statement at the text of the nested-link document: its ancestors
  are the link \<open>inner\<close>, the link \<open>outer\<close>, the paragraph and the document.
\<close>

theorem outermost_link_wins_witness:
  "(1 :: int) < 2 \<and> ''outer'' \<noteq> [] \<and> \<not> isLink Paragraph \<and> \<not> isLink Document
   \<and> filter isLinkRequest
        (requests (applyInlineFormatting
           [Link ''inner'', Link ''outer'', Paragraph, Document] 1 2 (newWalker 1)))
      = [UpdateTextStyle 1 2 (LinkUrl ''outer'')]"
proof -
  have h: "\<forall>p \<in> set [Paragraph, Document]. \<not> isLink p" by simp
  show ?thesis
    using outermost_link_wins [of 1 2 "''outer''" "[Paragraph, Document]" "[Link ''inner'']"
        "newWalker 1", OF _ _ h]
    by (simp add: newWalker_def)
qed

section \<open>The end of the plain text\<close>

text \<open>
  Claim C7, as stated: the plain text is non-empty only if the tree has a text-producing
  node, and a non-empty plain text ends with exactly one newline. It fails: the plain
  text of a fenced code block of one line ends with two newlines, the line's own and the
  one \<open>walk\<close> appends.
\<close>

theorem two_trailing_newlines_counterexample:
  "PlainText (Parse fencedDoc 1) \<noteq> []
   \<and> HasSuffix (PlainText (Parse fencedDoc 1)) (newline @ newline)"
  by code_simp

text \<open>
  Claim C7, amended: the plain text is non-empty only if the tree has a node of a kind
  for which \<open>walk\<close> writes to the buffer (heading, paragraph, text block, text, string,
  autolink, code span, fenced or indented code block, thematic break, image), and a
  non-empty plain text ends with a newline: at least one, not exactly one.
\<close>

theorem plain_text_ends_with_newline:
  "(PlainText (Parse doc base) \<noteq> [] \<longrightarrow> hasWritingNode doc)
   \<and> (PlainText (Parse doc base) \<noteq> [] \<longrightarrow> HasSuffix (PlainText (Parse doc base)) newline)"
proof (intro conjI impI)
  assume ne: "PlainText (Parse doc base) \<noteq> []"
  show "hasWritingNode doc"
  proof (rule ccontr)
    assume "\<not> hasWritingNode doc"
    then have "buf (walkHelper [] doc (newWalker base)) = []"
      by (simp add: walkHelper_silent(1) newWalker_def)
    then show False using ne by (simp add: Parse_def Let_def)
  qed
  show "HasSuffix (PlainText (Parse doc base)) newline"
    using ne by (auto simp: Parse_def Let_def HasSuffix_newline)
qed

text \<open>
  Claim C7, the amended statement at the document of a heading and a paragraph.
\<close>

theorem plain_text_ends_with_newline_witness:
  "PlainText (Parse titleBodyDoc 1) \<noteq> []
   \<and> hasWritingNode titleBodyDoc
   \<and> HasSuffix (PlainText (Parse titleBodyDoc 1)) newline"
proof -
  have "PlainText (Parse titleBodyDoc 1) \<noteq> []" by code_simp
  then show ?thesis
    using plain_text_ends_with_newline [of titleBodyDoc 1] by simp
qed

section \<open>Tables\<close>

text \<open>
  Claim C8, as stated: a table of two rows of two cells \<open>a\<close>, \<open>b\<close>, \<open>c\<close>, \<open>d\<close> compiles to
  \<open>a\<close>, tab, \<open>b\<close>, newline, \<open>c\<close>, tab, \<open>d\<close>, newline. It fails, whether the cells hold
  their text directly or in paragraphs.
\<close>

theorem table_separators_counterexample:
  "PlainText (Parse tableDoc 1)
     \<noteq> ''a'' @ [CHR 0x09] @ ''b'' @ newline @ ''c'' @ [CHR 0x09] @ ''d'' @ newline
   \<and> PlainText (Parse tableBlocksDoc 1)
     \<noteq> ''a'' @ [CHR 0x09] @ ''b'' @ newline @ ''c'' @ [CHR 0x09] @ ''d'' @ newline"
  by code_simp

text \<open>
  Claim C8, amended: \<open>walk\<close> has no case for tables, rows or cells; it passes through
  them and writes no separator. The table whose cells hold their text compiles to \<open>abcd\<close>
  and the final newline, with no request; with a paragraph in every cell each cell's text
  is followed by the paragraph's newline.
\<close>

theorem table_cells_concatenated:
  "walk parents (Node Table cs) entering w = (WalkContinue, w)
   \<and> walk parents (Node TableRow cs) entering w = (WalkContinue, w)
   \<and> walk parents (Node TableCell cs) entering w = (WalkContinue, w)
   \<and> PlainText (Parse tableDoc 1) = ''abcd'' @ newline
   \<and> Requests (Parse tableDoc 1) = []
   \<and> PlainText (Parse tableBlocksDoc 1)
       = ''a'' @ newline @ ''b'' @ newline @ ''c'' @ newline @ ''d'' @ newline"
proof -
  have "PlainText (Parse tableDoc 1) = ''abcd'' @ newline" by code_simp
  moreover have "Requests (Parse tableDoc 1) = []" by code_simp
  moreover have "PlainText (Parse tableBlocksDoc 1)
       = ''a'' @ newline @ ''b'' @ newline @ ''c'' @ newline @ ''d'' @ newline"
    by code_simp
  ultimately show ?thesis by simp
qed

section \<open>The byte budget of the plain text of a document\<close>

text \<open>
  Claim C9, as stated: with \<open>maxBytes > 0\<close> the text that \<open>docsPlainText\<close> returns never
  ends inside a multi-byte character. It fails: the text of the document whose one run
  is U+00E9 is well-formed UTF-8, and cut at one byte it is not.
\<close>

theorem truncation_splits_character_counterexample:
  "(0 :: int) < 1
   \<and> validUTF8 (docsPlainText accentDocsDocument 0)
   \<and> \<not> validUTF8 (docsPlainText accentDocsDocument 1)"
  by code_simp

text \<open>
  Claim C9, amended: the budget is counted in bytes. With \<open>maxBytes > 0\<close> the text
  returned is exactly the first \<open>maxBytes\<close> bytes of the unbounded text (all of it when it
  is shorter), wherever in a character that falls.
\<close>

theorem docsPlainText_take:
  "0 < maxBytes \<Longrightarrow> docsPlainText doc maxBytes = take (nat maxBytes) (docsPlainText doc 0)"
  using elements_truncated(2) [of maxBytes "[]"]
  by (auto simp: docsPlainText_def truncated_def split: option.splits)

text \<open>
  Claim C9, the amended statement at the document whose one run is U+00E9, cut at one
  byte: the first byte of the two.
\<close>

theorem docsPlainText_take_witness:
  "(0 :: int) < 1
   \<and> docsPlainText accentDocsDocument 0 = eAcute
   \<and> docsPlainText accentDocsDocument 1 = [CHR 0xC3]"
proof -
  have f: "docsPlainText accentDocsDocument 0 = eAcute" by code_simp
  show ?thesis
    using docsPlainText_take [of 1 accentDocsDocument] by (simp add: f) (simp add: eAcute_def)
qed

section \<open>Links without destination\<close>



end
